theory Spec2Isabelle
  imports Main "HOL-Library.Word" "HOL-Library.Log_Nat"
begin

unbundle bit_operations_syntax

section \<open>Exp-Golomb coding with delta wrapper: the code of deltagolomb.go\<close>

text \<open>
  Go's \<^verbatim>\<open>int\<close> and \<^verbatim>\<open>uint\<close> are taken at 64 bits (the width of the
  accumulator word \<^verbatim>\<open>egWordBits\<close>): both are \<open>64 word\<close>, \<^verbatim>\<open>int\<close>
  read through \<open>sint\<close>. Arithmetic wraps, and a shift by 64 or more gives 0, as in Go.
\<close>

type_synonym byte = "8 word"
type_synonym u64 = "64 word"

subsection \<open>The byte sink and the byte source\<close>

text \<open>
  \<^verbatim>\<open>makeWriter\<close> wraps a writer that has no \<^verbatim>\<open>Flush\<close> (such as the
  \<^verbatim>\<open>bytes.Buffer\<close> of \<^verbatim>\<open>DeltaEncode\<close>) in a \<^verbatim>\<open>bufio.Writer\<close>. The
  sink keeps the bytes that were written and not yet flushed (\<open>buffered\<close>) apart from
  the bytes that reached the underlying writer (\<open>written\<close>), and counts the flushes.
  The byte source is the list of bytes not read yet; \<^verbatim>\<open>ReadByte\<close> on the empty
  source returns the byte 0 and \<^verbatim>\<open>io.EOF\<close>.
\<close>

record byteWriter =
  buffered :: "byte list"
  written :: "byte list"
  flushes :: nat

definition Write_bytes :: "byteWriter \<Rightarrow> byte list \<Rightarrow> byteWriter" where
  "Write_bytes w bs = w\<lparr>buffered := buffered w @ bs\<rparr>"

definition Flush :: "byteWriter \<Rightarrow> byteWriter" where
  "Flush w = w\<lparr>buffered := [], written := written w @ buffered w, flushes := Suc (flushes w)\<rparr>"

definition new_buffer :: byteWriter where
  "new_buffer = \<lparr>buffered = [], written = [], flushes = 0\<rparr>"

datatype error = EOF | SliceBounds

subsection \<open>The encoder\<close>

record ExpGolombEncoder =
  data :: u64
  bitsleft :: u64
  out :: byteWriter
  outbuf :: "byte list"

definition egWordBits :: u64 where
  "egWordBits = 64"

definition NewExpGolombEncoder :: "byteWriter \<Rightarrow> ExpGolombEncoder" where
  "NewExpGolombEncoder w = \<lparr>data = 0, bitsleft = egWordBits, out = w, outbuf = replicate 8 0\<rparr>"

text \<open>\<^verbatim>\<open>binary.BigEndian.PutUint64\<close>: the most significant byte first.\<close>

definition PutUint64 :: "u64 \<Rightarrow> byte list" where
  "PutUint64 v = map (\<lambda>i. ucast (drop_bit (56 - 8 * i) v)) [0..<8]"

definition emitBits :: "ExpGolombEncoder \<Rightarrow> ExpGolombEncoder" where
  "emitBits s =
     s\<lparr>outbuf := PutUint64 (data s),
       out := Write_bytes (out s) (PutUint64 (data s)),
       data := 0, bitsleft := egWordBits\<rparr>"

text \<open>
  \<^verbatim>\<open>bs[:nbytes]\<close> panics when \<^verbatim>\<open>nbytes\<close> exceeds the 8 bytes of \<^verbatim>\<open>bs\<close>:
  the result is then \<open>Inl SliceBounds\<close>.
\<close>

definition emitPartialBits :: "ExpGolombEncoder \<Rightarrow> error + ExpGolombEncoder" where
  "emitPartialBits s =
     (let bs = PutUint64 (data s);
          nbytes = ((egWordBits - bitsleft s) + 7) div 8
      in if nbytes > 0
         then (if nbytes > 8 then Inl SliceBounds
               else Inr (s\<lparr>out := Write_bytes (out s) (take (unat nbytes) bs),
                           data := 0, bitsleft := egWordBits\<rparr>))
         else Inr (s\<lparr>data := 0, bitsleft := egWordBits\<rparr>))"

definition addBits :: "ExpGolombEncoder \<Rightarrow> u64 \<Rightarrow> u64 \<Rightarrow> ExpGolombEncoder" where
  "addBits s bits nbits =
     (if nbits < bitsleft s
      then s\<lparr>data := data s OR push_bit (unat (bitsleft s - nbits)) bits,
             bitsleft := bitsleft s - nbits\<rparr>
      else
        let s1 = s\<lparr>data := data s OR drop_bit (unat (nbits - bitsleft s)) bits\<rparr>;
            nbits1 = nbits - bitsleft s1;
            s2 = emitBits s1
        in s2\<lparr>data := push_bit (unat (egWordBits - nbits1)) bits,
               bitsleft := egWordBits - nbits1\<rparr>)"

function addZeroBits_loop :: "ExpGolombEncoder \<Rightarrow> u64 \<Rightarrow> ExpGolombEncoder" where
  "addZeroBits_loop s nzeros =
     (if nzeros \<ge> egWordBits then addZeroBits_loop (emitBits s) (nzeros - egWordBits)
      else s\<lparr>bitsleft := bitsleft s - nzeros\<rparr>)"
  by pat_completeness auto
termination
  by (relation "measure (\<lambda>(s, nzeros). unat nzeros)")
     (auto simp: egWordBits_def word_le_nat_alt unat_sub_if')

declare addZeroBits_loop.simps [simp del]

definition addZeroBits :: "ExpGolombEncoder \<Rightarrow> u64 \<Rightarrow> ExpGolombEncoder" where
  "addZeroBits s nzeros =
     (if nzeros < bitsleft s then s\<lparr>bitsleft := bitsleft s - nzeros\<rparr>
      else addZeroBits_loop (emitBits s) (nzeros - bitsleft s))"

definition bitLen :: "u64 \<Rightarrow> nat" where
  "bitLen x0 =
     (let (x1, n1) = (if x0 > push_bit 31 1 then (drop_bit 32 x0, 32) else (x0, 0));
          (x2, n2) = (if x1 \<ge> 0x8000 then (drop_bit 16 x1, n1 + 16) else (x1, n1));
          (x3, n3) = (if x2 \<ge> 0x80 then (drop_bit 8 x2, n2 + 8) else (x2, n2));
          (x4, n4) = (if x3 \<ge> 0x8 then (drop_bit 4 x3, n3 + 4) else (x3, n3));
          (x5, n5) = (if x4 \<ge> 0x2 then (drop_bit 2 x4, n4 + 2) else (x4, n4))
      in if x5 \<ge> 0x1 then n5 + 1 else n5)"

text \<open>The part of \<^verbatim>\<open>add\<close> after the \<^verbatim>\<open>switch\<close>: the general encoding.\<close>

definition add_general :: "ExpGolombEncoder \<Rightarrow> u64 \<Rightarrow> ExpGolombEncoder" where
  "add_general s item0 =
     (let (sign, item) = (if item0 <s 0 then (1, - item0) else (0, item0));
          uitem = item + 1;
          nbits = of_nat (bitLen uitem) - 1;
          s1 = addZeroBits s nbits;
          uitem1 = push_bit 1 uitem OR sign
      in addBits s1 uitem1 (nbits + 2))"

definition add :: "ExpGolombEncoder \<Rightarrow> u64 \<Rightarrow> ExpGolombEncoder" where
  "add s item =
     (if item = 0 then addBits s 1 1
      else if item = 1 then addBits s 0x4 4
      else if item = - 1 then addBits s 0x5 4
      else if item = 2 then addBits s 0x6 4
      else if item = - 2 then addBits s 0x7 4
      else add_general s item)"

fun Write :: "ExpGolombEncoder \<Rightarrow> u64 list \<Rightarrow> ExpGolombEncoder" where
  "Write s [] = s"
| "Write s (i # ilist) = Write (add s i) ilist"

definition WriteInt :: "ExpGolombEncoder \<Rightarrow> u64 \<Rightarrow> ExpGolombEncoder" where
  "WriteInt s i = add s i"

definition Close :: "ExpGolombEncoder \<Rightarrow> error + ExpGolombEncoder" where
  "Close s =
     (case (if bitsleft s \<noteq> egWordBits then emitPartialBits s else Inr s) of
        Inl e \<Rightarrow> Inl e
      | Inr s1 \<Rightarrow> Inr (s1\<lparr>out := Flush (out s1)\<rparr>))"

subsection \<open>The decoder\<close>

datatype dstate = COUNTING_ZEROS | SHIFTING_BITS | READING_SIGN

text \<open>
  \<open>nBits\<close> is only ever assigned 8 and decremented while positive, so it is a \<open>nat\<close>.
\<close>

record ExpGolombDecoder =
  r :: "byte list"
  b :: byte
  state :: dstate
  val :: u64
  zeros :: u64
  nBits :: nat

definition NewExpGolombDecoder :: "byte list \<Rightarrow> ExpGolombDecoder" where
  "NewExpGolombDecoder src =
     \<lparr>r = src, b = 0, state = COUNTING_ZEROS, val = 0, zeros = 0, nBits = 0\<rparr>"

text \<open>
  The \<^verbatim>\<open>switch\<close> of \<^verbatim>\<open>Read\<close> on one bit. \<^verbatim>\<open>Read\<close> runs it only with
  \<open>cpos < length outs\<close>, so \<open>outs[cpos := v]\<close> is the assignment \<^verbatim>\<open>out[cpos] = v\<close>.
\<close>

definition Read_switch ::
  "ExpGolombDecoder \<Rightarrow> u64 list \<Rightarrow> nat \<Rightarrow> byte \<Rightarrow> ExpGolombDecoder \<times> u64 list \<times> nat" where
  "Read_switch s outs cpos bv =
     (case state s of
        COUNTING_ZEROS \<Rightarrow>
          (if bv = 0 then (s\<lparr>zeros := zeros s + 1\<rparr>, outs, cpos)
           else if zeros s = 0 then (s, outs[cpos := 0], cpos + 1)
           else (s\<lparr>state := SHIFTING_BITS, val := 1\<rparr>, outs, cpos))
      | SHIFTING_BITS \<Rightarrow>
          (let v = push_bit 1 (val s) OR ucast bv;
               z = zeros s - 1
           in if z = 0
              then (s\<lparr>val := v - 1, zeros := z, state := COUNTING_ZEROS\<rparr>,
                    outs[cpos := v - 1], cpos + 1)
              else (s\<lparr>val := v, zeros := z\<rparr>, outs, cpos))
      | READING_SIGN \<Rightarrow>
          (let v = (if bv = 1 then - val s else val s)
           in (s\<lparr>val := v, state := COUNTING_ZEROS\<rparr>, outs[cpos := v], cpos + 1)))"

lemma Read_switch_source:
  "r (fst (Read_switch s outs cpos bv)) = r s \<and> nBits (fst (Read_switch s outs cpos bv)) = nBits s"
  by (simp add: Read_switch_def Let_def split: dstate.splits)

function Read_loop ::
  "ExpGolombDecoder \<Rightarrow> u64 list \<Rightarrow> nat \<Rightarrow> ExpGolombDecoder \<times> u64 list \<times> nat \<times> error option" where
  "Read_loop s outs cpos =
     (if nBits s = 0
      then (case r s of
              [] \<Rightarrow> (s\<lparr>b := 0\<rparr>, outs, cpos, Some EOF)
            | x # xs \<Rightarrow> Read_loop (s\<lparr>r := xs, b := x, nBits := 8\<rparr>) outs cpos)
      else if cpos \<ge> length outs then (s, outs, cpos, None)
      else (case Read_switch (s\<lparr>nBits := nBits s - 1\<rparr>) outs cpos
                   (drop_bit (nBits s - 1) (b s) AND 1) of
              (s', outs', cpos') \<Rightarrow> Read_loop s' outs' cpos'))"
  by pat_completeness auto
termination
proof (relation "measure (\<lambda>p. 9 * length (r (fst p)) + nBits (fst p))", goal_cases)
  case 1
  show ?case by simp
next
  case (2 s outs cpos x xs)
  then show ?case by simp
next
  case (3 s outs cpos s' rest outs')
  then have "s' = fst (Read_switch (s\<lparr>nBits := nBits s - 1\<rparr>) outs cpos
                        (drop_bit (nBits s - 1) (b s) AND 1))"
    by (metis fst_conv)
  with 3 show ?case
    by (simp add: Read_switch_source)
qed

declare Read_loop.simps [simp del]

lemma Read_switch_length:
  "length (fst (snd (Read_switch s outs cpos bv))) = length outs"
  by (simp add: Read_switch_def Let_def split: dstate.splits)

lemma Read_loop_progress:
  "Read_loop s outs cpos = (s', outs', cpos', err) \<Longrightarrow>
     length outs' = length outs \<and>
     9 * length (r s') + nBits s' \<le> 9 * length (r s) + nBits s \<and>
     (err = None \<and> cpos < length outs \<longrightarrow>
        9 * length (r s') + nBits s' < 9 * length (r s) + nBits s)"
proof (induction s outs cpos arbitrary: s' outs' cpos' err rule: Read_loop.induct)
  case (1 s outs cpos)
  show ?case
  proof (cases "nBits s = 0")
    case True
    show ?thesis
    proof (cases "r s")
      case Nil
      with True "1.prems" show ?thesis
        by (auto simp: Read_loop.simps [of s])
    next
      case (Cons x xs)
      with True "1.prems" have "Read_loop (s\<lparr>r := xs, b := x, nBits := 8\<rparr>) outs cpos
          = (s', outs', cpos', err)"
        by (simp add: Read_loop.simps [of s])
      from "1.IH"(1) [OF True Cons this] Cons True show ?thesis
        by simp
    qed
  next
    case False
    show ?thesis
    proof (cases "cpos \<ge> length outs")
      case True
      with False "1.prems" show ?thesis
        by (simp add: Read_loop.simps [of s])
    next
      case notfull: False
      obtain s1 outs1 cpos1 where sw:
        "Read_switch (s\<lparr>nBits := nBits s - 1\<rparr>) outs cpos
           (drop_bit (nBits s - 1) (b s) AND 1) = (s1, outs1, cpos1)"
        by (cases "Read_switch (s\<lparr>nBits := nBits s - 1\<rparr>) outs cpos
           (drop_bit (nBits s - 1) (b s) AND 1)") auto
      with False notfull "1.prems" have rec: "Read_loop s1 outs1 cpos1 = (s', outs', cpos', err)"
        by (simp add: Read_loop.simps [of s])
      have src: "r s1 = r s" "nBits s1 = nBits s - 1"
        using Read_switch_source [of "s\<lparr>nBits := nBits s - 1\<rparr>" outs cpos
           "drop_bit (nBits s - 1) (b s) AND 1"] sw by simp_all
      have len: "length outs1 = length outs"
        using Read_switch_length [of "s\<lparr>nBits := nBits s - 1\<rparr>" outs cpos
           "drop_bit (nBits s - 1) (b s) AND 1"] sw by simp
      from "1.IH"(2) [OF False notfull sw [symmetric] refl rec] src len False show ?thesis
        by auto
    qed
  qed
qed

definition Read ::
  "ExpGolombDecoder \<Rightarrow> u64 list \<Rightarrow> ExpGolombDecoder \<times> u64 list \<times> nat \<times> error option" where
  "Read s outs = Read_loop s outs 0"

subsection \<open>The delta wrapper\<close>

fun DeltaEncode_loop :: "ExpGolombEncoder \<Rightarrow> u64 \<Rightarrow> u64 list \<Rightarrow> ExpGolombEncoder" where
  "DeltaEncode_loop egs prev [] = egs"
| "DeltaEncode_loop egs prev (i # is) = DeltaEncode_loop (Write egs [i - prev]) i is"

text \<open>The result is \<^verbatim>\<open>bytestream.Bytes()\<close>: what reached the buffer under the \<^verbatim>\<open>bufio.Writer\<close>.\<close>

definition DeltaEncode :: "u64 \<Rightarrow> u64 list \<Rightarrow> error + byte list" where
  "DeltaEncode start dat =
     (case Close (DeltaEncode_loop (NewExpGolombEncoder new_buffer) start dat) of
        Inl e \<Rightarrow> Inl e
      | Inr egs \<Rightarrow> Inr (written (out egs)))"

text \<open>
  \<^verbatim>\<open>tmp\<close> is a slice of length 1: the loop carries its only cell, \<open>tmp0\<close>.
\<close>

function DeltaDecode_loop :: "ExpGolombDecoder \<Rightarrow> u64 \<Rightarrow> u64 \<Rightarrow> u64 list \<Rightarrow> u64 list" where
  "DeltaDecode_loop decoder tmp0 v res =
     (case Read decoder [tmp0] of
        (decoder', tmp', n, err) \<Rightarrow>
          (let v' = (if n > 0 then v + tmp' ! 0 else v);
               res' = (if n > 0 then res @ [v'] else res)
           in if err \<noteq> None then res'
              else DeltaDecode_loop decoder' (tmp' ! 0) v' res'))"
  by pat_completeness auto
termination
proof (relation "measure (\<lambda>p. 9 * length (r (fst p)) + nBits (fst p))", goal_cases)
  case 1
  show ?case by simp
next
  case (2 decoder tmp0 v res decoder' p1 tmp' p2 n err)
  then have "Read_loop decoder [tmp0] 0 = (decoder', tmp', n, err)" "err = None"
    by (auto simp: Read_def)
  from Read_loop_progress [OF this(1)] this(2) show ?case
    by simp
qed

declare DeltaDecode_loop.simps [simp del]

definition DeltaDecode :: "u64 \<Rightarrow> byte list \<Rightarrow> u64 list" where
  "DeltaDecode base compressed = DeltaDecode_loop (NewExpGolombDecoder compressed) 0 base []"

subsection \<open>Decoder states that the code can reach\<close>

text \<open>
  One rule for each place where \<^verbatim>\<open>NewExpGolombDecoder\<close> and \<^verbatim>\<open>Read\<close> assign to the
  decoder: the constructor, a successful \<^verbatim>\<open>ReadByte\<close>, \<^verbatim>\<open>ReadByte\<close> at the end of
  the source, and one bit through the \<^verbatim>\<open>switch\<close>. Rule \<open>feed\<close> lets the underlying
  reader hold any bytes, at any time.
\<close>

inductive reachable :: "ExpGolombDecoder \<Rightarrow> bool" where
  new: "reachable (NewExpGolombDecoder src)"
| feed: "reachable s \<Longrightarrow> reachable (s\<lparr>r := src\<rparr>)"
| fetch: "reachable s \<Longrightarrow> nBits s = 0 \<Longrightarrow> r s = x # xs \<Longrightarrow>
          reachable (s\<lparr>r := xs, b := x, nBits := 8\<rparr>)"
| eof: "reachable s \<Longrightarrow> nBits s = 0 \<Longrightarrow> r s = [] \<Longrightarrow> reachable (s\<lparr>b := 0\<rparr>)"
| bit: "reachable s \<Longrightarrow> 0 < nBits s \<Longrightarrow> cpos < length outs \<Longrightarrow>
        reachable (fst (Read_switch (s\<lparr>nBits := nBits s - 1\<rparr>) outs cpos
                          (drop_bit (nBits s - 1) (b s) AND 1)))"

subsection \<open>What the decoder emits from all the input it holds\<close>

text \<open>
  \<open>drain\<close> runs the two loops of \<^verbatim>\<open>Read\<close> with no bound on the number of values: the
  final decoder and every value that the \<^verbatim>\<open>switch\<close> emits, in order. It is the
  yardstick for \<^verbatim>\<open>Read\<close> with buffers of any size.
\<close>

function drain :: "ExpGolombDecoder \<Rightarrow> ExpGolombDecoder \<times> u64 list" where
  "drain s =
     (if nBits s = 0
      then (case r s of
              [] \<Rightarrow> (s\<lparr>b := 0\<rparr>, [])
            | x # xs \<Rightarrow> drain (s\<lparr>r := xs, b := x, nBits := 8\<rparr>))
      else (case Read_switch (s\<lparr>nBits := nBits s - 1\<rparr>) [0] 0
                   (drop_bit (nBits s - 1) (b s) AND 1) of
              (s', outs', cpos') \<Rightarrow>
                (case drain s' of (s'', vs) \<Rightarrow> (s'', take cpos' outs' @ vs))))"
  by pat_completeness auto
termination
proof (relation "measure (\<lambda>s. 9 * length (r s) + nBits s)", goal_cases)
  case 1
  show ?case by simp
next
  case (2 s x xs)
  then show ?case by simp
next
  case (3 s s' rest outs')
  then have "s' = fst (Read_switch (s\<lparr>nBits := nBits s - 1\<rparr>) [0] 0
                        (drop_bit (nBits s - 1) (b s) AND 1))"
    by (metis fst_conv)
  with 3 show ?case
    by (simp add: Read_switch_source)
qed

declare drain.simps [simp del]


text \<open>
  A caller that hands the decoder one byte at a time: for each byte, the source holds
  that byte alone and \<^verbatim>\<open>Read\<close> is called with a buffer of 8 slots (a byte has 8 bits and
  a bit emits at most one value); the values of all the calls are collected.
\<close>

fun Read_each :: "ExpGolombDecoder \<Rightarrow> byte list \<Rightarrow> ExpGolombDecoder \<times> u64 list" where
  "Read_each s [] = (s, [])"
| "Read_each s (x # xs) =
     (case Read (s\<lparr>r := [x]\<rparr>) (replicate 8 0) of
        (s', outs', n, err) \<Rightarrow>
          (case Read_each s' xs of (s'', vs) \<Rightarrow> (s'', take n outs' @ vs)))"

section \<open>The decoder: what \<^verbatim>\<open>Read\<close> computes\<close>

lemma Read_switch_state:
  "state s \<noteq> READING_SIGN \<Longrightarrow> state (fst (Read_switch s outs cpos bv)) \<noteq> READING_SIGN"
  by (simp add: Read_switch_def Let_def split: dstate.splits)

lemma reachable_state: "reachable s \<Longrightarrow> state s \<noteq> READING_SIGN"
proof (induction rule: reachable.induct)
  case (new src)
  show ?case by (simp add: NewExpGolombDecoder_def)
next
  case (bit s cpos outs)
  then show ?case by (simp add: Read_switch_state)
qed simp_all

lemma Read_loop_reachable:
  "reachable s \<Longrightarrow> reachable (fst (Read_loop s outs cpos))"
proof (induction s outs cpos rule: Read_loop.induct)
  case (1 s outs cpos)
  show ?case
  proof (cases "nBits s = 0")
    case True
    show ?thesis
    proof (cases "r s")
      case Nil
      with True "1.prems" show ?thesis
        by (simp add: Read_loop.simps [of s] reachable.eof)
    next
      case (Cons x xs)
      from "1.prems" True Cons have "reachable (s\<lparr>r := xs, b := x, nBits := 8\<rparr>)"
        by (rule reachable.fetch)
      from "1.IH"(1) [OF True Cons this] True Cons show ?thesis
        by (simp add: Read_loop.simps [of s])
    qed
  next
    case False
    show ?thesis
    proof (cases "cpos \<ge> length outs")
      case True
      with False "1.prems" show ?thesis
        by (simp add: Read_loop.simps [of s])
    next
      case notfull: False
      obtain s1 outs1 cpos1 where sw:
        "Read_switch (s\<lparr>nBits := nBits s - 1\<rparr>) outs cpos
           (drop_bit (nBits s - 1) (b s) AND 1) = (s1, outs1, cpos1)"
        by (cases "Read_switch (s\<lparr>nBits := nBits s - 1\<rparr>) outs cpos
           (drop_bit (nBits s - 1) (b s) AND 1)") auto
      have "reachable (fst (Read_switch (s\<lparr>nBits := nBits s - 1\<rparr>) outs cpos
           (drop_bit (nBits s - 1) (b s) AND 1)))"
        using "1.prems" False notfull by (intro reachable.bit) auto
      with sw have "reachable s1" by simp
      from "1.IH"(2) [OF False notfull sw [symmetric] refl this] sw False notfull show ?thesis
        by (simp add: Read_loop.simps [of s])
    qed
  qed
qed

lemma Read_switch_slot:
  "Read_switch s outs cpos bv =
     (case Read_switch s [0] 0 bv of
        (s', o', c') \<Rightarrow> (s', if c' = 0 then outs else outs[cpos := o' ! 0], cpos + c'))"
  by (simp add: Read_switch_def Let_def split: dstate.splits)

lemma Read_switch_slot_shape:
  "Read_switch s [0] 0 bv = (s', o', c') \<Longrightarrow> c' \<le> 1 \<and> length o' = 1"
  by (auto simp: Read_switch_def Let_def split: dstate.splits if_splits)

lemma drain_step:
  assumes "nBits s \<noteq> 0"
    and "Read_switch (s\<lparr>nBits := nBits s - 1\<rparr>) [0] 0
           (drop_bit (nBits s - 1) (b s) AND 1) = (s', o', c')"
  shows "drain s = (fst (drain s'), (if c' = 0 then [] else [o' ! 0]) @ snd (drain s'))"
proof -
  from Read_switch_slot_shape [OF assms(2)] have "c' \<le> 1" "length o' = 1" by simp_all
  then have "take c' o' = (if c' = 0 then [] else [o' ! 0])"
    by (cases o'; cases c') auto
  with assms show ?thesis
    by (simp add: drain.simps [of s] split: prod.splits)
qed

lemma Read_loop_drain:
  "cpos + 8 * length (r s) + nBits s \<le> length outs \<Longrightarrow>
     Read_loop s outs cpos =
       (fst (drain s),
        take cpos outs @ snd (drain s) @ drop (cpos + length (snd (drain s))) outs,
        cpos + length (snd (drain s)), Some EOF) \<and>
     length (snd (drain s)) \<le> 8 * length (r s) + nBits s"
proof (induction s outs cpos rule: Read_loop.induct)
  case (1 s outs cpos)
  show ?case
  proof (cases "nBits s = 0")
    case True
    show ?thesis
    proof (cases "r s")
      case Nil
      with True show ?thesis
        by (simp add: Read_loop.simps [of s] drain.simps [of s])
    next
      case (Cons x xs)
      from "1.prems" True Cons
      have "cpos + 8 * length (r (s\<lparr>r := xs, b := x, nBits := 8\<rparr>))
              + nBits (s\<lparr>r := xs, b := x, nBits := 8\<rparr>) \<le> length outs"
        by simp
      from "1.IH"(1) [OF True Cons this] True Cons show ?thesis
        by (simp add: Read_loop.simps [of s] drain.simps [of s])
    qed
  next
    case False
    with "1.prems" have notfull: "\<not> length outs \<le> cpos" by simp
    obtain s1 o1 c1 where slot:
      "Read_switch (s\<lparr>nBits := nBits s - 1\<rparr>) [0] 0
         (drop_bit (nBits s - 1) (b s) AND 1) = (s1, o1, c1)"
      by (cases "Read_switch (s\<lparr>nBits := nBits s - 1\<rparr>) [0] 0
         (drop_bit (nBits s - 1) (b s) AND 1)") auto
    from Read_switch_slot_shape [OF slot] have c1: "c1 \<le> 1" by simp
    define outs1 where "outs1 = (if c1 = 0 then outs else outs[cpos := o1 ! 0])"
    have sw: "Read_switch (s\<lparr>nBits := nBits s - 1\<rparr>) outs cpos
           (drop_bit (nBits s - 1) (b s) AND 1) = (s1, outs1, cpos + c1)"
      using slot by (simp add: Read_switch_slot [of _ outs cpos] outs1_def)
    have src: "r s1 = r s" "nBits s1 = nBits s - 1"
      using Read_switch_source [of "s\<lparr>nBits := nBits s - 1\<rparr>" "[0]" 0
         "drop_bit (nBits s - 1) (b s) AND 1"] slot by simp_all
    have len: "length outs1 = length outs"
      by (simp add: outs1_def)
    from "1.prems" False c1 src len
    have room: "cpos + c1 + 8 * length (r s1) + nBits s1 \<le> length outs1"
      by simp
    note ih = "1.IH"(2) [OF False notfull sw [symmetric] refl room]
    have dr: "drain s = (fst (drain s1), (if c1 = 0 then [] else [o1 ! 0]) @ snd (drain s1))"
      using False slot by (rule drain_step)
    have rl: "Read_loop s outs cpos = Read_loop s1 outs1 (cpos + c1)"
      using False notfull sw by (simp add: Read_loop.simps [of s])
    show ?thesis
    proof (cases "c1 = 0")
      case True
      with ih dr rl src False show ?thesis
        by (auto simp: outs1_def)
    next
      case c: False
      with c1 have c1': "c1 = 1" by simp
      have tk: "take (Suc cpos) (outs[cpos := o1 ! 0]) = take cpos outs @ [o1 ! 0]"
        using notfull by (simp add: take_Suc_conv_app_nth)
      from ih dr rl src False c1' tk show ?thesis
        by (auto simp: outs1_def)
    qed
  qed
qed

lemma Read_switch_r_update:
  "Read_switch (s\<lparr>r := zs, nBits := k\<rparr>) outs cpos bv =
     (case Read_switch (s\<lparr>nBits := k\<rparr>) outs cpos bv of
        (s', o', c') \<Rightarrow> (s'\<lparr>r := zs\<rparr>, o', c'))"
  by (simp add: Read_switch_def Let_def split: dstate.splits)

lemma drain_b_irrelevant: "nBits s = 0 \<Longrightarrow> drain (s\<lparr>b := c\<rparr>) = drain s"
  by (cases "r s") (simp_all add: drain.simps [of s] drain.simps [of "s\<lparr>b := c\<rparr>"])

lemma drain_final:
  "nBits (fst (drain s)) = 0 \<and> r (fst (drain s)) = [] \<and> b (fst (drain s)) = 0"
proof (induction s rule: drain.induct)
  case (1 s)
  show ?case
  proof (cases "nBits s = 0")
    case True
    show ?thesis
    proof (cases "r s")
      case Nil
      with True show ?thesis by (simp add: drain.simps [of s])
    next
      case (Cons x xs)
      from "1.IH"(1) [OF True Cons] True Cons show ?thesis
        by (simp add: drain.simps [of s])
    qed
  next
    case False
    obtain s1 o1 c1 where slot:
      "Read_switch (s\<lparr>nBits := nBits s - 1\<rparr>) [0] 0
         (drop_bit (nBits s - 1) (b s) AND 1) = (s1, o1, c1)"
      by (cases "Read_switch (s\<lparr>nBits := nBits s - 1\<rparr>) [0] 0
         (drop_bit (nBits s - 1) (b s) AND 1)") auto
    from "1.IH"(2) [OF False slot [symmetric] refl] drain_step [OF False slot]
    show ?thesis by simp
  qed
qed

lemma drain_append:
  "drain (s\<lparr>r := r s @ ys\<rparr>) =
     (case drain s of (s1, vs1) \<Rightarrow>
        case drain (s1\<lparr>r := ys\<rparr>) of (s2, vs2) \<Rightarrow> (s2, vs1 @ vs2))"
proof (induction s rule: drain.induct)
  case (1 s)
  show ?case
  proof (cases "nBits s = 0")
    case True
    show ?thesis
    proof (cases "r s")
      case Nil
      have "drain (s\<lparr>b := 0, r := ys\<rparr>) = drain (s\<lparr>r := ys\<rparr>)"
      proof (cases ys)
        case Nil
        with True show ?thesis
          by (simp add: drain.simps [of "s\<lparr>b := 0, r := []\<rparr>"] drain.simps [of "s\<lparr>r := []\<rparr>"])
      next
        case (Cons y ys')
        with True show ?thesis
          by (simp add: drain.simps [of "s\<lparr>b := 0, r := y # ys'\<rparr>"]
              drain.simps [of "s\<lparr>r := y # ys'\<rparr>"])
      qed
      with True Nil show ?thesis
        by (simp add: drain.simps [of s])
    next
      case (Cons x xs)
      have e: "s\<lparr>r := xs @ ys, b := x, nBits := 8\<rparr> = s\<lparr>b := x, nBits := 8, r := xs @ ys\<rparr>"
        by (cases s) simp
      from "1.IH"(1) [OF True Cons] True Cons show ?thesis
        by (simp add: drain.simps [of s] drain.simps [of "s\<lparr>r := x # xs @ ys\<rparr>"] e)
    qed
  next
    case False
    obtain s1 o1 c1 where slot:
      "Read_switch (s\<lparr>nBits := nBits s - 1\<rparr>) [0] 0
         (drop_bit (nBits s - 1) (b s) AND 1) = (s1, o1, c1)"
      by (cases "Read_switch (s\<lparr>nBits := nBits s - 1\<rparr>) [0] 0
         (drop_bit (nBits s - 1) (b s) AND 1)") auto
    have src: "r s1 = r s"
      using Read_switch_source [of "s\<lparr>nBits := nBits s - 1\<rparr>" "[0]" 0
         "drop_bit (nBits s - 1) (b s) AND 1"] slot by simp
    let ?t = "s\<lparr>r := r s @ ys\<rparr>"
    have slot': "Read_switch (?t\<lparr>nBits := nBits ?t - 1\<rparr>) [0] 0
         (drop_bit (nBits ?t - 1) (b ?t) AND 1) = (s1\<lparr>r := r s1 @ ys\<rparr>, o1, c1)"
      using slot by (simp add: Read_switch_r_update src)
    have nz: "nBits ?t \<noteq> 0" using False by simp
    from "1.IH"(2) [OF False slot [symmetric] refl]
      drain_step [OF False slot] drain_step [OF nz slot']
    show ?thesis by (simp add: case_prod_beta)
  qed
qed

lemma Read_each_drain:
  "nBits s = 0 \<Longrightarrow> bytes \<noteq> [] \<Longrightarrow> Read_each s bytes = drain (s\<lparr>r := bytes\<rparr>)"
proof (induction bytes arbitrary: s)
  case Nil
  then show ?case by simp
next
  case (Cons x xs)
  let ?t = "s\<lparr>r := [x]\<rparr>"
  have "0 + 8 * length (r ?t) + nBits ?t \<le> length (replicate 8 (0::u64))"
    using Cons.prems by simp
  from Read_loop_drain [OF this]
  have rd: "Read ?t (replicate 8 0) =
      (fst (drain ?t), snd (drain ?t) @ drop (length (snd (drain ?t))) (replicate 8 0),
       length (snd (drain ?t)), Some EOF)"
    by (simp add: Read_def)
  have app: "drain (s\<lparr>r := x # xs\<rparr>) =
      (case drain ?t of (s1, vs1) \<Rightarrow>
         case drain (s1\<lparr>r := xs\<rparr>) of (s2, vs2) \<Rightarrow> (s2, vs1 @ vs2))"
    using drain_append [of ?t xs] by simp
  show ?case
  proof (cases "xs = []")
    case True
    with rd show ?thesis by (simp add: case_prod_beta)
  next
    case False
    from drain_final [of ?t] have "nBits (fst (drain ?t)) = 0" by simp
    from Cons.IH [OF this False] rd app show ?thesis
      by (simp add: case_prod_beta)
  qed
qed





lemma Read_large_buffer:
  assumes "8 * length (r s) + nBits s \<le> length outs"
  shows "Read s outs =
           (fst (drain s), snd (drain s) @ drop (length (snd (drain s))) outs,
            length (snd (drain s)), Some EOF)"
  using Read_loop_drain [of 0 s outs] assms by (simp add: Read_def)

section \<open>The sign bit is never read\<close>

text \<open>
  Claim C1 (round trip of one value, \<open>|v| \<le> 2^31 - 2\<close>). The code at \<open>v = -1\<close>:
  \<^verbatim>\<open>Write([-1])\<close> and \<^verbatim>\<open>Close\<close> give the one byte 0x50 (the codeword 0101 and four
  padding bits), and \<^verbatim>\<open>Read\<close> on that byte gives 1 as the first decoded value, without
  error: the sign is lost.
\<close>

theorem roundtrip_minus_one_first_value:
  "map_sum id (\<lambda>egs. written (out egs)) (Close (Write (NewExpGolombEncoder new_buffer) [- 1]))
     = Inr [0x50] \<and>
   Read (NewExpGolombDecoder [0x50]) [0]
     = (\<lparr>r = [], b = 0x50, state = COUNTING_ZEROS, val = 1, zeros = 0, nBits = 5\<rparr>,
        [1], 1, None) \<and>
   sint (1 :: u64) \<noteq> - 1"
  by code_simp

text \<open>
  Claim C2 (after the last magnitude bit the decoder goes to \<open>READING_SIGN\<close> and reads
  the sign bit as a step of its own). The code, in \<open>SHIFTING_BITS\<close> with one bit left
  to shift: whatever the bit, it emits the value at once and goes back to
  \<open>COUNTING_ZEROS\<close>; on the byte 0x50 the sign bit 1 of the codeword 0101 is then
  decoded as a second value, 0.
\<close>

theorem shift_complete_returns_to_counting:
  "Read_switch (s\<lparr>state := SHIFTING_BITS, zeros := 1\<rparr>) outs cpos bv
     = (s\<lparr>val := (push_bit 1 (val s) OR ucast bv) - 1, zeros := 0, state := COUNTING_ZEROS\<rparr>,
        outs[cpos := (push_bit 1 (val s) OR ucast bv) - 1], cpos + 1) \<and>
   Read (NewExpGolombDecoder [0x50]) [7, 7, 7]
     = (\<lparr>r = [], b = 0, state = COUNTING_ZEROS, val = 1, zeros = 4, nBits = 0\<rparr>,
        [1, 0, 7], 2, Some EOF)"
proof
  show "Read_switch (s\<lparr>state := SHIFTING_BITS, zeros := 1\<rparr>) outs cpos bv
     = (s\<lparr>val := (push_bit 1 (val s) OR ucast bv) - 1, zeros := 0, state := COUNTING_ZEROS\<rparr>,
        outs[cpos := (push_bit 1 (val s) OR ucast bv) - 1], cpos + 1)"
    by (simp add: Read_switch_def Let_def)
  show "Read (NewExpGolombDecoder [0x50]) [7, 7, 7]
     = (\<lparr>r = [], b = 0, state = COUNTING_ZEROS, val = 1, zeros = 4, nBits = 0\<rparr>,
        [1, 0, 7], 2, Some EOF)"
    by code_simp
qed

text \<open>
  Claim C3 (delta round trip). The code at \<open>start = 0\<close>, \<open>S = [-1]\<close>:
  \<^verbatim>\<open>DeltaEncode\<close> gives the byte 0x50 and \<^verbatim>\<open>DeltaDecode\<close> of it gives
  \<open>[1, 1]\<close>, not \<open>[-1]\<close>.
\<close>

theorem delta_roundtrip_minus_one:
  "DeltaEncode 0 [- 1] = Inr [0x50] \<and> DeltaDecode 0 [0x50] = [1, 1]"
  by code_simp

section \<open>Resumption, exhaustion and the unreachable state\<close>

text \<open>
  Claim C8 (resumability). From a decoder with no bits pending, in the middle of a
  codeword or not, feeding \<open>bytes\<close> one byte at a time over successive \<^verbatim>\<open>Read\<close> calls
  gives the same values, in the same order, as one \<^verbatim>\<open>Read\<close> on all of \<open>bytes\<close> with
  a buffer of at least 8 slots for each byte; that \<^verbatim>\<open>Read\<close> ends with \<^verbatim>\<open>io.EOF\<close>, and
  both ways leave the decoder in the same state.
\<close>

theorem Read_bytewise_same:
  "nBits s = 0 \<Longrightarrow> 8 * length bytes \<le> length outs \<Longrightarrow>
   Read (s\<lparr>r := bytes\<rparr>) outs = (s', outs', n, err) \<Longrightarrow>
     snd (Read_each s bytes) = take n outs' \<and> err = Some EOF \<and>
     (bytes \<noteq> [] \<longrightarrow> fst (Read_each s bytes) = s')"
proof -
  assume nb: "nBits s = 0" and room: "8 * length bytes \<le> length outs"
    and rd: "Read (s\<lparr>r := bytes\<rparr>) outs = (s', outs', n, err)"
  let ?t = "s\<lparr>r := bytes\<rparr>"
  have "8 * length (r ?t) + nBits ?t \<le> length outs"
    using nb room by simp
  from Read_large_buffer [OF this] rd
  have res: "s' = fst (drain ?t)" "take n outs' = snd (drain ?t)" "err = Some EOF"
    by auto
  show ?thesis
  proof (cases "bytes = []")
    case True
    with nb have "drain ?t = (s\<lparr>r := [], b := 0\<rparr>, [])"
      by (simp add: drain.simps [of "s\<lparr>r := []\<rparr>"])
    with True res show ?thesis by simp
  next
    case False
    from Read_each_drain [OF nb False] res show ?thesis by simp
  qed
qed

theorem Read_bytewise_same_witness:
  "nBits (NewExpGolombDecoder []) = 0 \<and>
   8 * length [0x00, 0x96, 0x80 :: byte] \<le> length (replicate 24 (0 :: u64)) \<and>
   Read ((NewExpGolombDecoder [])\<lparr>r := [0x00, 0x96, 0x80]\<rparr>) (replicate 24 0)
     = (\<lparr>r = [], b = 0, state = COUNTING_ZEROS, val = 300, zeros = 7, nBits = 0\<rparr>,
        300 # replicate 23 0, 1, Some EOF) \<and>
   snd (Read_each (NewExpGolombDecoder []) [0x00, 0x96, 0x80]) = take 1 (300 # replicate 23 0) \<and>
   fst (Read_each (NewExpGolombDecoder []) [0x00, 0x96, 0x80])
     = \<lparr>r = [], b = 0, state = COUNTING_ZEROS, val = 300, zeros = 7, nBits = 0\<rparr>"
proof -
  have h1: "nBits (NewExpGolombDecoder []) = 0"
    by (simp add: NewExpGolombDecoder_def)
  have h2: "8 * length [0x00, 0x96, 0x80 :: byte] \<le> length (replicate 24 (0 :: u64))"
    by simp
  have h3: "Read ((NewExpGolombDecoder [])\<lparr>r := [0x00, 0x96, 0x80]\<rparr>) (replicate 24 0)
     = (\<lparr>r = [], b = 0, state = COUNTING_ZEROS, val = 300, zeros = 7, nBits = 0\<rparr>,
        300 # replicate 23 0, 1, Some EOF)"
    by code_simp
  from Read_bytewise_same [OF h1 h2 h3] h1 h2 h3 show ?thesis
    by simp
qed



text \<open>
  Claim C10 (\<open>READING_SIGN\<close> is dead). Every decoder state that the code reaches from
  \<^verbatim>\<open>NewExpGolombDecoder\<close>, on any input, has its \<open>state\<close> field in
  \<open>{COUNTING_ZEROS, SHIFTING_BITS}\<close>, and \<^verbatim>\<open>Read\<close> leads from reachable states to
  reachable states: the \<open>READING_SIGN\<close> branch of the \<^verbatim>\<open>switch\<close> never runs.
\<close>

theorem reading_sign_unreachable:
  "reachable s \<Longrightarrow>
     state s \<in> {COUNTING_ZEROS, SHIFTING_BITS} \<and> reachable (fst (Read s outs))"
proof
  assume rs: "reachable s"
  from reachable_state [OF rs] show "state s \<in> {COUNTING_ZEROS, SHIFTING_BITS}"
    by (cases "state s") simp_all
  from rs show "reachable (fst (Read s outs))"
    by (simp add: Read_def Read_loop_reachable)
qed

theorem reading_sign_unreachable_witness:
  "reachable (NewExpGolombDecoder [0x50]) \<and>
   state (NewExpGolombDecoder [0x50]) \<in> {COUNTING_ZEROS, SHIFTING_BITS} \<and>
   reachable (fst (Read (NewExpGolombDecoder [0x50]) [0, 0]))"
  using reading_sign_unreachable [OF reachable.new, of "[0x50]" "[0, 0]"] reachable.new [of "[0x50]"]
  by simp

end
